theory Spec2Isabelle
  imports Main
begin

section \<open>The core of minesweeper.py: squares and the game\<close>

text \<open>
  Coordinates are pairs of Python integers. A \<open>Square\<close> carries the three attributes of
  the source class. A \<open>Game\<close> carries \<open>width\<close>, \<open>height\<close>, \<open>mines\<close> and the dictionary
  \<open>_squares\<close>; the dictionary is an association list in insertion order, because
  \<open>all_coords\<close> iterates its keys. Every square object is stored under one key only
  (the constructor builds a new \<open>Square()\<close> for each key), so an attribute assignment
  through \<open>self[coords]\<close> changes the entry of that key and nothing else.
\<close>

type_synonym coords = "int \<times> int"

record Square =
  opened :: bool
  mine :: bool
  flagged :: bool

record Game =
  width :: int
  height :: int
  mines :: int
  squares :: "(coords \<times> Square) list"

datatype error = KeyError | ValueError | RecursionError

text \<open>
  A mutator returns \<open>Inr g'\<close> when it returns normally with the game in state \<open>g'\<close>, and
  \<open>Inl (e, g')\<close> when it raises \<open>e\<close>: the assignments made before the exception stay, so
  the state at the raise is part of the outcome.
\<close>

type_synonym outcome = "(error \<times> Game) + Game"

fun state_after :: "outcome \<Rightarrow> Game" where
  "state_after (Inl (e, g)) = g"
| "state_after (Inr g) = g"

definition Square_init :: Square where
  "Square_init = \<lparr>opened = False, mine = False, flagged = False\<rparr>"

text \<open>\<open>__getitem__\<close>: a dictionary lookup; \<open>None\<close> stands for the \<open>KeyError\<close>.\<close>

definition getitem :: "Game \<Rightarrow> coords \<Rightarrow> Square option" where
  "getitem g c = map_of (squares g) c"

text \<open>An attribute assignment \<open>self[coords].attr = v\<close>, for a key that is present.\<close>

definition update_square :: "(Square \<Rightarrow> Square) \<Rightarrow> coords \<Rightarrow> Game \<Rightarrow> Game" where
  "update_square f c g =
     g\<lparr>squares := map (\<lambda>(k, sq). if k = c then (k, f sq) else (k, sq)) (squares g)\<rparr>"

definition all_coords :: "Game \<Rightarrow> coords list" where
  "all_coords g = map fst (squares g)"

subsection \<open>Construction\<close>

text \<open>\<open>[(x, y) for x in range(width) for y in range(height)]\<close>\<close>

definition grid :: "int \<Rightarrow> int \<Rightarrow> coords list" where
  "grid w h = [(x, y). x \<leftarrow> [0..w - 1], y \<leftarrow> [0..h - 1]]"

text \<open>
  \<open>random.sample(population, k)\<close> is the standard library's. It raises \<open>ValueError\<close>
  when \<open>k\<close> is negative or larger than the population, and otherwise returns the
  elements at \<open>k\<close> distinct positions of the population, in some order. The positions
  drawn are the parameter \<open>idxs\<close>; \<open>sample_ok\<close> says that they are a possible draw.
\<close>

definition sample_ok :: "'a list \<Rightarrow> int \<Rightarrow> nat list \<Rightarrow> bool" where
  "sample_ok population k idxs \<longleftrightarrow>
     int (length idxs) = k \<and> distinct idxs \<and> list_all (\<lambda>i. i < length population) idxs"

definition random_sample :: "'a list \<Rightarrow> int \<Rightarrow> nat list \<Rightarrow> error + 'a list" where
  "random_sample population k idxs =
     (if k < 0 \<or> int (length population) < k then Inl ValueError
      else Inr (map (\<lambda>i. population ! i) idxs))"

text \<open>The loop \<open>for coords in mine_coords: self[coords].mine = True\<close>.\<close>

fun mark_mines :: "coords list \<Rightarrow> Game \<Rightarrow> error + Game" where
  "mark_mines [] g = Inr g"
| "mark_mines (c # cs) g =
     (case getitem g c of
        None \<Rightarrow> Inl KeyError
      | Some sq \<Rightarrow> mark_mines cs (update_square (\<lambda>s. s\<lparr>mine := True\<rparr>) c g))"

definition Game_init :: "int \<Rightarrow> int \<Rightarrow> int \<Rightarrow> nat list \<Rightarrow> error + Game" where
  "Game_init w h m idxs =
     (let coords_list = grid w h in
      case random_sample coords_list m idxs of
        Inl e \<Rightarrow> Inl e
      | Inr mine_coords \<Rightarrow>
          mark_mines mine_coords
            \<lparr>width = w, height = h, mines = m,
             squares = map (\<lambda>c. (c, Square_init)) coords_list\<rparr>)"

subsection \<open>Neighbours and mine counts\<close>

text \<open>
  The generator \<open>coords_around\<close> depends on \<open>width\<close>, \<open>height\<close> and its argument only,
  none of which a mutator changes, so the list of what it yields stands for it.
\<close>

definition coords_around :: "Game \<Rightarrow> coords \<Rightarrow> coords list" where
  "coords_around g c =
     (case c of (centerx, centery) \<Rightarrow>
        [(centerx + xdiff, centery + ydiff).
           xdiff \<leftarrow> [- 1, 0, 1], ydiff \<leftarrow> [- 1, 0, 1],
           \<not> (xdiff = ydiff \<and> ydiff = 0),
           centerx + xdiff \<in> set [0..width g - 1] \<and> centery + ydiff \<in> set [0..height g - 1]])"

fun mines_around_loop :: "Game \<Rightarrow> coords list \<Rightarrow> error + coords list" where
  "mines_around_loop g [] = Inr []"
| "mines_around_loop g (minecoords # rest) =
     (case getitem g minecoords of
        None \<Rightarrow> Inl KeyError
      | Some sq \<Rightarrow>
          (case mines_around_loop g rest of
             Inl e \<Rightarrow> Inl e
           | Inr ms \<Rightarrow> Inr (if mine sq then minecoords # ms else ms)))"

definition mines_around :: "Game \<Rightarrow> coords \<Rightarrow> error + coords list" where
  "mines_around g c = mines_around_loop g (coords_around g c)"

definition number_of_mines_around :: "Game \<Rightarrow> coords \<Rightarrow> error + int" where
  "number_of_mines_around g c =
     (case mines_around g c of
        Inl e \<Rightarrow> Inl e
      | Inr ms \<Rightarrow> Inr (foldl (\<lambda>result coords_around. result + 1) 0 ms))"

subsection \<open>The mutators\<close>

definition toggle_flag :: "Game \<Rightarrow> coords \<Rightarrow> outcome" where
  "toggle_flag g c =
     (case getitem g c of
        None \<Rightarrow> Inl (KeyError, g)
      | Some sq \<Rightarrow>
          if \<not> opened sq then Inr (update_square (\<lambda>s. s\<lparr>flagged := \<not> flagged s\<rparr>) c g)
          else Inr g)"

text \<open>
  \<open>open\<close> and \<open>auto_open\<close> call each other. The first argument bounds how deep calls of
  \<open>open\<close> may nest: \<open>open_square d\<close> may have at most \<open>d\<close> calls of \<open>open\<close> on the stack
  at once, itself included. A call that would exceed the bound ends in
  \<open>RecursionError\<close>, which is what the interpreter raises at its recursion limit; a call
  that ends so for every bound is a recursion that never returns.
\<close>

fun open_square :: "nat \<Rightarrow> Game \<Rightarrow> coords \<Rightarrow> outcome"
  and auto_open_loop :: "nat \<Rightarrow> Game \<Rightarrow> coords list \<Rightarrow> outcome" where
  "open_square 0 g c = Inl (RecursionError, g)"
| "open_square (Suc d) g c =
     (case getitem g c of
        None \<Rightarrow> Inl (KeyError, g)
      | Some sq \<Rightarrow>
          (let g1 = (if \<not> flagged sq then update_square (\<lambda>s. s\<lparr>opened := True\<rparr>) c g else g) in
           case number_of_mines_around g1 c of
             Inl e \<Rightarrow> Inl (e, g1)
           | Inr n \<Rightarrow> if n = 0 then auto_open_loop d g1 (coords_around g1 c) else Inr g1))"
| "auto_open_loop d g [] = Inr g"
| "auto_open_loop d g (c # cs) =
     (case getitem g c of
        None \<Rightarrow> Inl (KeyError, g)
      | Some sq \<Rightarrow>
          if \<not> opened sq then
            (case open_square d g c of
               Inl raised \<Rightarrow> Inl raised
             | Inr g' \<Rightarrow> auto_open_loop d g' cs)
          else auto_open_loop d g cs)"

definition auto_open :: "nat \<Rightarrow> Game \<Rightarrow> coords \<Rightarrow> outcome" where
  "auto_open d g c = auto_open_loop d g (coords_around g c)"

subsection \<open>The queries\<close>

text \<open>
  \<open>explosion_coords\<close> and \<open>win\<close> look up keys of the dictionary itself, so their lookups
  cannot raise; the \<open>None\<close> branches below are never taken (lemma \<open>getitem_all_coords\<close>).
\<close>

definition explosion_coords :: "Game \<Rightarrow> coords option" where
  "explosion_coords g =
     find (\<lambda>c. case getitem g c of None \<Rightarrow> False | Some sq \<Rightarrow> mine sq \<and> opened sq)
       (all_coords g)"

definition exploded :: "Game \<Rightarrow> bool" where
  "exploded g \<longleftrightarrow> explosion_coords g \<noteq> None"

fun win_loop :: "Game \<Rightarrow> coords list \<Rightarrow> bool" where
  "win_loop g [] = (\<not> exploded g)"
| "win_loop g (c # cs) =
     (case getitem g c of
        None \<Rightarrow> False
      | Some sq \<Rightarrow> if \<not> (mine sq \<or> opened sq) then False else win_loop g cs)"

definition win :: "Game \<Rightarrow> bool" where
  "win g = win_loop g (all_coords g)"

definition over :: "Game \<Rightarrow> bool" where
  "over g \<longleftrightarrow> exploded g \<or> win g"

subsection \<open>Reading one square\<close>

text \<open>The attributes of the square at a coordinate; false where the dictionary has no such key.\<close>

definition is_opened :: "Game \<Rightarrow> coords \<Rightarrow> bool" where
  "is_opened g c = (case getitem g c of None \<Rightarrow> False | Some sq \<Rightarrow> opened sq)"

definition is_mine :: "Game \<Rightarrow> coords \<Rightarrow> bool" where
  "is_mine g c = (case getitem g c of None \<Rightarrow> False | Some sq \<Rightarrow> mine sq)"

definition is_flagged :: "Game \<Rightarrow> coords \<Rightarrow> bool" where
  "is_flagged g c = (case getitem g c of None \<Rightarrow> False | Some sq \<Rightarrow> flagged sq)"

subsection \<open>Well-formed games and sample boards\<close>

text \<open>The keys of the dictionary are the grid, as the constructor leaves them.\<close>

definition wf_game :: "Game \<Rightarrow> bool" where
  "wf_game g \<longleftrightarrow> all_coords g = grid (width g) (height g)"

definition in_grid :: "Game \<Rightarrow> coords \<Rightarrow> bool" where
  "in_grid g c \<longleftrightarrow> 0 \<le> fst c \<and> fst c < width g \<and> 0 \<le> snd c \<and> snd c < height g"

text \<open>A 1 x 2 board without mines, as \<open>Game(1, 2, 0)\<close> builds it.\<close>

definition board12 :: Game where
  "board12 = \<lparr>width = 1, height = 2, mines = 0,
     squares = [((0, 0), Square_init), ((0, 1), Square_init)]\<rparr>"

text \<open>The same board after \<open>toggle_flag((0, 0))\<close>, and after \<open>toggle_flag((0, 1))\<close> as well.\<close>

definition half_flagged12 :: Game where
  "half_flagged12 = \<lparr>width = 1, height = 2, mines = 0,
     squares = [((0, 0), Square_init\<lparr>flagged := True\<rparr>), ((0, 1), Square_init)]\<rparr>"

definition flagged12 :: Game where
  "flagged12 = \<lparr>width = 1, height = 2, mines = 0,
     squares = [((0, 0), Square_init\<lparr>flagged := True\<rparr>),
                ((0, 1), Square_init\<lparr>flagged := True\<rparr>)]\<rparr>"

text \<open>The same board with both squares opened.\<close>

definition opened12 :: Game where
  "opened12 = \<lparr>width = 1, height = 2, mines = 0,
     squares = [((0, 0), Square_init\<lparr>opened := True\<rparr>),
                ((0, 1), Square_init\<lparr>opened := True\<rparr>)]\<rparr>"

text \<open>A 1 x 2 board with one mine, at \<open>(0, 0)\<close>, and one with two mines.\<close>

definition mine12 :: Game where
  "mine12 = \<lparr>width = 1, height = 2, mines = 1,
     squares = [((0, 0), Square_init\<lparr>mine := True\<rparr>), ((0, 1), Square_init)]\<rparr>"

definition all_mines12 :: Game where
  "all_mines12 = \<lparr>width = 1, height = 2, mines = 2,
     squares = [((0, 0), Square_init\<lparr>mine := True\<rparr>), ((0, 1), Square_init\<lparr>mine := True\<rparr>)]\<rparr>"

text \<open>A 1 x 3 board with one mine, at \<open>(0, 2)\<close>.\<close>

definition mine13 :: Game where
  "mine13 = \<lparr>width = 1, height = 3, mines = 1,
     squares = [((0, 0), Square_init), ((0, 1), Square_init),
                ((0, 2), Square_init\<lparr>mine := True\<rparr>)]\<rparr>"

text \<open>A 3 x 3 board with one mine, in the middle.\<close>

definition mine33 :: Game where
  "mine33 = \<lparr>width = 3, height = 3, mines = 1,
     squares = [((0, 0), Square_init), ((0, 1), Square_init), ((0, 2), Square_init),
                ((1, 0), Square_init), ((1, 1), Square_init\<lparr>mine := True\<rparr>), ((1, 2), Square_init),
                ((2, 0), Square_init), ((2, 1), Square_init), ((2, 2), Square_init)]\<rparr>"

subsection \<open>Sequences of calls\<close>

text \<open>\<open>toggle_flag(c)\<close> called \<open>n\<close> times in a row.\<close>

fun toggle_flag_times :: "nat \<Rightarrow> Game \<Rightarrow> coords \<Rightarrow> outcome" where
  "toggle_flag_times 0 g c = Inr g"
| "toggle_flag_times (Suc n) g c =
     (case toggle_flag g c of Inl raised \<Rightarrow> Inl raised | Inr g' \<Rightarrow> toggle_flag_times n g' c)"

subsection \<open>How a call of \<open>open\<close> may change a game\<close>

text \<open>
  \<open>opened_more g g'\<close>: the two games have the same dimensions and keys, every square
  has the same \<open>mine\<close> and \<open>flagged\<close> in both, a square opened in \<open>g\<close> is opened in
  \<open>g'\<close>, and a square opened in \<open>g'\<close> only is not flagged.
\<close>

definition opened_more :: "Game \<Rightarrow> Game \<Rightarrow> bool" where
  "opened_more g g' \<longleftrightarrow>
     width g' = width g \<and> height g' = height g \<and> mines g' = mines g \<and>
     all_coords g' = all_coords g \<and>
     (\<forall>c sq. getitem g c = Some sq \<longrightarrow>
        (\<exists>sq'. getitem g' c = Some sq' \<and> mine sq' = mine sq \<and> flagged sq' = flagged sq \<and>
               (opened sq \<longrightarrow> opened sq') \<and> (opened sq' \<longrightarrow> opened sq \<or> \<not> flagged sq)))"

subsection \<open>Measuring the recursion\<close>

text \<open>The number of squares that are not opened, and the games without any flag.\<close>

definition closed_count :: "Game \<Rightarrow> nat" where
  "closed_count g = length (filter (\<lambda>c. \<not> is_opened g c) (all_coords g))"

definition no_flags :: "Game \<Rightarrow> bool" where
  "no_flags g \<longleftrightarrow> (\<forall>c. \<not> is_flagged g c)"

subsection \<open>The flag invariant and the reachable games\<close>

text \<open>No square is flagged and opened at once.\<close>

definition flag_inv :: "Game \<Rightarrow> bool" where
  "flag_inv g \<longleftrightarrow> (\<forall>c. \<not> (is_flagged g c \<and> is_opened g c))"

text \<open>
  The games a caller can reach: a fresh game, built from a possible draw of
  \<open>random.sample\<close>, followed by calls of \<open>open\<close> and \<open>toggle_flag\<close> on any coordinates,
  whether they return or raise.
\<close>

inductive reachable :: "Game \<Rightarrow> bool" where
  fresh: "sample_ok (grid w h) m idxs \<Longrightarrow> Game_init w h m idxs = Inr g \<Longrightarrow> reachable g"
| after_open: "reachable g \<Longrightarrow> reachable (state_after (open_square d g c))"
| after_toggle_flag: "reachable g \<Longrightarrow> reachable (state_after (toggle_flag g c))"

section \<open>Basic facts about the dictionary\<close>

lemma getitem_all_coords: "c \<in> set (all_coords g) \<Longrightarrow> getitem g c \<noteq> None"
  by (simp add: getitem_def all_coords_def map_of_eq_None_iff)

lemma getitem_Some_all_coords: "getitem g c = Some sq \<Longrightarrow> c \<in> set (all_coords g)"
  by (auto simp: getitem_def all_coords_def dest: map_of_SomeD intro: rev_image_eqI)

lemma map_of_update:
  "map_of (map (\<lambda>(k, sq). if k = c then (k, f sq) else (k, sq)) xs) c' =
     (if c' = c then map_option f (map_of xs c) else map_of xs c')"
  by (induction xs) auto

lemma getitem_update_square:
  "getitem (update_square f c g) c' =
     (if c' = c then map_option f (getitem g c) else getitem g c')"
  by (simp add: getitem_def update_square_def map_of_update)

lemma all_coords_update_square [simp]: "all_coords (update_square f c g) = all_coords g"
  by (simp add: all_coords_def update_square_def comp_def case_prod_unfold if_distrib)

lemma width_update_square [simp]: "width (update_square f c g) = width g"
  by (simp add: update_square_def)

lemma height_update_square [simp]: "height (update_square f c g) = height g"
  by (simp add: update_square_def)

lemma mines_update_square [simp]: "mines (update_square f c g) = mines g"
  by (simp add: update_square_def)

lemma coords_around_update_square [simp]:
  "coords_around (update_square f c g) c' = coords_around g c'"
  by (simp add: coords_around_def)

lemma update_square_twice:
  "update_square f c (update_square f' c g) = update_square (f \<circ> f') c g"
  by (simp add: update_square_def comp_def case_prod_unfold if_distrib cong: if_cong)

lemma update_square_ident: "(\<And>s. f s = s) \<Longrightarrow> update_square f c g = g"
proof -
  assume "\<And>s. f s = s"
  then have "(\<lambda>(k, sq). if k = c then (k, f sq) else (k, sq)) = (\<lambda>p. p)"
    by (auto simp: fun_eq_iff)
  then show ?thesis by (simp add: update_square_def)
qed

section \<open>What \<open>open\<close> and \<open>auto_open\<close> leave alone\<close>

lemma opened_more_refl: "opened_more g g"
  by (simp add: opened_more_def)

lemma opened_more_trans: "opened_more a b \<Longrightarrow> opened_more b c \<Longrightarrow> opened_more a c"
  unfolding opened_more_def by (elim conjE, intro conjI; simp?) metis

lemma opened_more_update:
  "getitem g c = Some sq \<Longrightarrow> \<not> flagged sq \<Longrightarrow>
   opened_more g (update_square (\<lambda>s. s\<lparr>opened := True\<rparr>) c g)"
  by (auto simp: opened_more_def getitem_update_square)

lemma open_square_opened_more:
  "opened_more g (state_after (open_square d g c))"
  "opened_more g (state_after (auto_open_loop d g cs))"
proof (induct d g c and d g cs rule: open_square_auto_open_loop.induct)
  case (1 g c)
  show ?case by (simp add: opened_more_refl)
next
  case (2 d g c)
  show ?case
  proof (cases "getitem g c")
    case None
    then show ?thesis by (simp add: opened_more_refl)
  next
    case (Some sq)
    define g1 where "g1 = (if \<not> flagged sq then update_square (\<lambda>s. s\<lparr>opened := True\<rparr>) c g else g)"
    have g1: "opened_more g g1"
      using Some by (simp add: g1_def opened_more_refl opened_more_update)
    show ?thesis
    proof (cases "number_of_mines_around g1 c")
      case (Inl e)
      then show ?thesis using Some g1 by (simp add: g1_def Let_def)
    next
      case (Inr n)
      show ?thesis
      proof (cases "n = 0")
        case True
        have "opened_more g1 (state_after (auto_open_loop d g1 (coords_around g1 c)))"
          using "2" [OF Some g1_def Inr True] .
        with g1 have "opened_more g (state_after (auto_open_loop d g1 (coords_around g1 c)))"
          by (rule opened_more_trans)
        then show ?thesis using Some Inr True by (simp add: g1_def Let_def)
      next
        case False
        then show ?thesis using Some Inr g1 by (simp add: g1_def Let_def)
      qed
    qed
  qed
next
  case (3 d g)
  show ?case by (simp add: opened_more_refl)
next
  case (4 d g c cs)
  show ?case
  proof (cases "getitem g c")
    case None
    then show ?thesis by (simp add: opened_more_refl)
  next
    case (Some sq)
    show ?thesis
    proof (cases "opened sq")
      case True
      then show ?thesis using Some "4.hyps"(3) by simp
    next
      case False
      note closed = False
      show ?thesis
      proof (cases "open_square d g c")
        case (Inl raised)
        then show ?thesis using Some closed "4.hyps"(1) [OF Some] by simp
      next
        case (Inr g')
        have "opened_more g g'" using "4.hyps"(1) [OF Some] closed Inr by simp
        moreover have "opened_more g' (state_after (auto_open_loop d g' cs))"
          using "4.hyps"(2) [OF Some _ Inr] closed by simp
        ultimately show ?thesis using Some closed Inr by (simp add: opened_more_trans)
      qed
    qed
  qed
qed

lemma getitem_None_iff: "getitem g c = None \<longleftrightarrow> c \<notin> set (all_coords g)"
  by (simp add: getitem_def all_coords_def map_of_eq_None_iff)

lemma opened_more_None: "opened_more g g' \<Longrightarrow> getitem g' c = None \<longleftrightarrow> getitem g c = None"
  by (simp add: getitem_None_iff opened_more_def)

lemma opened_more_getitem:
  "opened_more g g' \<Longrightarrow> getitem g c = Some sq \<Longrightarrow>
     \<exists>sq'. getitem g' c = Some sq' \<and> mine sq' = mine sq \<and> flagged sq' = flagged sq \<and>
           (opened sq \<longrightarrow> opened sq') \<and> (opened sq' \<longrightarrow> opened sq \<or> \<not> flagged sq)"
  unfolding opened_more_def by blast

lemma opened_more_is_mine: "opened_more g g' \<Longrightarrow> is_mine g' c = is_mine g c"
proof (cases "getitem g c")
  case None
  assume "opened_more g g'"
  from opened_more_None [OF this, of c] None show ?thesis by (simp add: is_mine_def)
next
  case (Some sq)
  assume "opened_more g g'"
  from opened_more_getitem [OF this Some] Some show ?thesis
    by (auto simp: is_mine_def)
qed

lemma opened_more_is_flagged: "opened_more g g' \<Longrightarrow> is_flagged g' c = is_flagged g c"
proof (cases "getitem g c")
  case None
  assume "opened_more g g'"
  from opened_more_None [OF this, of c] None show ?thesis by (simp add: is_flagged_def)
next
  case (Some sq)
  assume "opened_more g g'"
  from opened_more_getitem [OF this Some] Some show ?thesis
    by (auto simp: is_flagged_def)
qed

lemma opened_more_is_opened: "opened_more g g' \<Longrightarrow> is_opened g c \<Longrightarrow> is_opened g' c"
proof (cases "getitem g c")
  case None
  then show "is_opened g c \<Longrightarrow> is_opened g' c" by (simp add: is_opened_def)
next
  case (Some sq)
  assume "opened_more g g'" "is_opened g c"
  with opened_more_getitem [OF \<open>opened_more g g'\<close> Some] Some show ?thesis
    by (auto simp: is_opened_def)
qed

lemma opened_more_newly_unflagged:
  "opened_more g g' \<Longrightarrow> is_opened g' c \<Longrightarrow> \<not> is_opened g c \<Longrightarrow> \<not> is_flagged g c"
proof (cases "getitem g c")
  case None
  then show "\<not> is_flagged g c" by (simp add: is_flagged_def)
next
  case (Some sq)
  assume "opened_more g g'" "is_opened g' c" "\<not> is_opened g c"
  with opened_more_getitem [OF \<open>opened_more g g'\<close> Some] Some show ?thesis
    by (auto simp: is_opened_def is_flagged_def)
qed

section \<open>The cascade opens no mine\<close>

lemma mines_around_loop_Inr:
  "mines_around_loop g cs = Inr ms \<Longrightarrow>
     ms = filter (is_mine g) cs \<and> (\<forall>c \<in> set cs. getitem g c \<noteq> None)"
  by (induction cs arbitrary: ms) (auto simp: is_mine_def split: option.splits sum.splits)

lemma foldl_count: "foldl (\<lambda>result x. result + 1) k ms = k + int (length ms)"
  by (induction ms arbitrary: k) simp_all

lemma number_of_mines_around_Inr:
  "number_of_mines_around g c = Inr n \<Longrightarrow>
     n = int (length (filter (is_mine g) (coords_around g c))) \<and>
     (\<forall>x \<in> set (coords_around g c). getitem g x \<noteq> None)"
  by (auto simp: number_of_mines_around_def mines_around_def foldl_count
      split: sum.splits dest!: mines_around_loop_Inr)

lemma number_of_mines_around_zero:
  "number_of_mines_around g c = Inr 0 \<Longrightarrow> x \<in> set (coords_around g c) \<Longrightarrow> \<not> is_mine g x"
  by (auto dest!: number_of_mines_around_Inr simp: filter_empty_conv)

lemma is_opened_update_other:
  "c' \<noteq> c \<Longrightarrow> is_opened (update_square f c g) c' = is_opened g c'"
  by (simp add: is_opened_def getitem_update_square)

lemma cascade_opens_no_mine:
  "c' \<noteq> c \<Longrightarrow> \<not> is_opened g c' \<Longrightarrow> is_opened (state_after (open_square d g c)) c' \<Longrightarrow>
     \<not> is_mine g c'"
  "\<forall>x \<in> set cs. \<not> is_mine g x \<Longrightarrow> \<not> is_opened g c' \<Longrightarrow>
     is_opened (state_after (auto_open_loop d g cs)) c' \<Longrightarrow> \<not> is_mine g c'"
proof (induct d g c and d g cs arbitrary: c' and c' rule: open_square_auto_open_loop.induct)
  case (1 g c)
  then show ?case by simp
next
  case (2 d g c)
  note prems = "2.prems"
  show ?case
  proof (cases "getitem g c")
    case None
    with prems show ?thesis by simp
  next
    case (Some sq)
    define g1 where "g1 = (if \<not> flagged sq then update_square (\<lambda>s. s\<lparr>opened := True\<rparr>) c g else g)"
    have g1: "opened_more g g1"
      using Some by (simp add: g1_def opened_more_refl opened_more_update)
    have closed1: "\<not> is_opened g1 c'"
      using prems(1,2) by (simp add: g1_def is_opened_update_other)
    show ?thesis
    proof (cases "number_of_mines_around g1 c")
      case (Inl e)
      with prems(3) Some closed1 show ?thesis by (simp add: g1_def Let_def)
    next
      case (Inr n)
      show ?thesis
      proof (cases "n = 0")
        case True
        have nb: "\<forall>x \<in> set (coords_around g1 c). \<not> is_mine g1 x"
          using Inr True number_of_mines_around_zero by blast
        have "is_opened (state_after (auto_open_loop d g1 (coords_around g1 c))) c'"
          using prems(3) Some Inr True by (simp add: g1_def Let_def)
        then have "\<not> is_mine g1 c'"
          using "2.hyps" [OF Some g1_def Inr True nb closed1] by simp
        then show ?thesis using g1 by (simp add: opened_more_is_mine)
      next
        case False
        with prems(3) Some Inr closed1 show ?thesis by (simp add: g1_def Let_def)
      qed
    qed
  qed
next
  case (3 d g)
  then show ?case by simp
next
  case (4 d g c cs)
  note prems = "4.prems"
  show ?case
  proof (cases "getitem g c")
    case None
    with prems show ?thesis by simp
  next
    case (Some sq)
    show ?thesis
    proof (cases "opened sq")
      case True
      then show ?thesis using Some prems "4.hyps"(3) [OF Some] by simp
    next
      case False
      note closed = False
      have after_open: "\<not> is_mine g c'" if "is_opened (state_after (open_square d g c)) c'"
      proof (cases "c' = c")
        case True
        with prems(1) show ?thesis by simp
      next
        case False
        from "4.hyps"(1) [OF Some closed False prems(2) that] show ?thesis .
      qed
      show ?thesis
      proof (cases "open_square d g c")
        case (Inl raised)
        then show ?thesis using Some closed prems(3) after_open by simp
      next
        case (Inr g')
        have gg': "opened_more g g'"
          using open_square_opened_more(1) [of g d c] Inr by simp
        show ?thesis
        proof (cases "is_opened g' c'")
          case True
          then show ?thesis using after_open Inr by simp
        next
          case False
          have "\<forall>x \<in> set cs. \<not> is_mine g' x"
            using prems(1) gg' by (simp add: opened_more_is_mine)
          moreover have "is_opened (state_after (auto_open_loop d g' cs)) c'"
            using prems(3) Some closed Inr by simp
          ultimately have "\<not> is_mine g' c'"
            using "4.hyps"(2) [OF Some closed Inr _ False] by simp
          then show ?thesis using gg' by (simp add: opened_more_is_mine)
        qed
      qed
    qed
  qed
qed

text \<open>
  Claim C2. Whatever a call \<open>open(c)\<close> does, a square other than the one at \<open>c\<close> that
  was closed before the call and is opened after it is not a mine. This holds for the
  state the call leaves behind whether it returns or raises.
\<close>

theorem auto_open_never_opens_mine:
  assumes "c' \<noteq> c" and "\<not> is_opened g c'"
    and "is_opened (state_after (open_square d g c)) c'"
  shows "\<not> is_mine (state_after (open_square d g c)) c'"
proof -
  have "\<not> is_mine g c'"
    using assms by (rule cascade_opens_no_mine(1))
  then show ?thesis
    using open_square_opened_more(1) [of g d c] by (simp add: opened_more_is_mine)
qed

theorem auto_open_never_opens_mine_witness:
  "(0, 1) \<noteq> ((0, 0) :: coords) \<and> \<not> is_opened mine13 (0, 1) \<and>
   is_opened (state_after (open_square 3 mine13 (0, 0))) (0, 1) \<and>
   \<not> is_mine (state_after (open_square 3 mine13 (0, 0))) (0, 1)"
proof -
  have a: "(0, 1) \<noteq> ((0, 0) :: coords)" by simp
  have b: "\<not> is_opened mine13 (0, 1)" by code_simp
  have c: "is_opened (state_after (open_square 3 mine13 (0, 0))) (0, 1)" by code_simp
  from a b c auto_open_never_opens_mine [OF a b c] show ?thesis by simp
qed

section \<open>Winning and exploding\<close>

lemma exploded_iff:
  "exploded g \<longleftrightarrow> (\<exists>c sq. getitem g c = Some sq \<and> mine sq \<and> opened sq)"
proof -
  have "exploded g \<longleftrightarrow>
      (\<exists>c \<in> set (all_coords g). case getitem g c of None \<Rightarrow> False | Some sq \<Rightarrow> mine sq \<and> opened sq)"
    by (auto simp: exploded_def explosion_coords_def find_None_iff)
  also have "\<dots> \<longleftrightarrow> (\<exists>c sq. getitem g c = Some sq \<and> mine sq \<and> opened sq)"
    by (auto split: option.splits dest: getitem_Some_all_coords)
  finally show ?thesis .
qed

lemma win_loop_iff:
  "win_loop g cs \<longleftrightarrow>
     (\<forall>c \<in> set cs. \<exists>sq. getitem g c = Some sq \<and> (mine sq \<or> opened sq)) \<and> \<not> exploded g"
  by (induction cs) (auto split: option.splits)

lemma win_mine_or_opened:
  "win g \<longleftrightarrow> (\<forall>c sq. getitem g c = Some sq \<longrightarrow> mine sq \<or> opened sq) \<and> \<not> exploded g"
proof -
  have "(\<forall>c \<in> set (all_coords g). \<exists>sq. getitem g c = Some sq \<and> (mine sq \<or> opened sq)) \<longleftrightarrow>
        (\<forall>c sq. getitem g c = Some sq \<longrightarrow> mine sq \<or> opened sq)"
    using getitem_all_coords getitem_Some_all_coords by fastforce
  then show ?thesis by (simp add: win_def win_loop_iff)
qed

text \<open>
  Claim C4. \<open>win()\<close> returns true if and only if every square that is not a mine is
  opened and no mine is opened; equivalently, if and only if every square is a mine or
  opened and the game is not exploded. The squares are the entries of the dictionary.
\<close>

theorem win_iff:
  "(win g \<longleftrightarrow>
      (\<forall>c sq. getitem g c = Some sq \<longrightarrow> (\<not> mine sq \<longrightarrow> opened sq) \<and> (mine sq \<longrightarrow> \<not> opened sq))) \<and>
   (win g \<longleftrightarrow>
      (\<forall>c sq. getitem g c = Some sq \<longrightarrow> mine sq \<or> opened sq) \<and> \<not> exploded g)"
  unfolding win_mine_or_opened exploded_iff by blast

theorem win_iff_witness: "win opened12 \<and> \<not> win board12 \<and> \<not> exploded opened12"
proof -
  have "\<And>c sq. getitem opened12 c = Some sq \<Longrightarrow> \<not> mine sq \<and> opened sq"
    by (auto simp: getitem_def opened12_def Square_init_def split: if_splits)
  then have w: "win opened12"
    using win_iff [of opened12, THEN conjunct1] by blast
  then have e: "\<not> exploded opened12"
    using win_iff [of opened12, THEN conjunct2] by blast
  have "getitem board12 (0, 0) = Some Square_init"
    by (simp add: getitem_def board12_def)
  moreover have "\<not> mine Square_init \<and> \<not> opened Square_init"
    by (simp add: Square_init_def)
  ultimately have "\<not> win board12"
    using win_iff [of board12, THEN conjunct1] by blast
  with w e show ?thesis by simp
qed

section \<open>Flags\<close>

text \<open>
  Claim C9. For a coordinate whose square is not opened, \<open>toggle_flag\<close> flips the
  flag, and a second call gives back the game as it was, so the flag has its original
  value. For a coordinate whose square is opened, any number of calls of \<open>toggle_flag\<close>
  leaves the whole game unchanged.
\<close>

theorem toggle_flag_twice:
  assumes "getitem g c = Some sq"
  shows "(\<not> opened sq \<longrightarrow>
            (\<exists>g1. toggle_flag g c = Inr g1 \<and>
                  getitem g1 c = Some (sq\<lparr>flagged := \<not> flagged sq\<rparr>) \<and>
                  toggle_flag g1 c = Inr g)) \<and>
         (opened sq \<longrightarrow> toggle_flag_times n g c = Inr g)"
proof (intro conjI impI)
  assume closed: "\<not> opened sq"
  let ?g1 = "update_square (\<lambda>s. s\<lparr>flagged := \<not> flagged s\<rparr>) c g"
  have 1: "toggle_flag g c = Inr ?g1"
    using assms closed by (simp add: toggle_flag_def)
  have 2: "getitem ?g1 c = Some (sq\<lparr>flagged := \<not> flagged sq\<rparr>)"
    using assms by (simp add: getitem_update_square)
  have "toggle_flag ?g1 c = Inr (update_square (\<lambda>s. s\<lparr>flagged := \<not> flagged s\<rparr>) c ?g1)"
    using 2 closed by (simp add: toggle_flag_def)
  also have "update_square (\<lambda>s. s\<lparr>flagged := \<not> flagged s\<rparr>) c ?g1 = g"
    by (simp add: update_square_twice comp_def update_square_ident)
  finally show "\<exists>g1. toggle_flag g c = Inr g1 \<and>
      getitem g1 c = Some (sq\<lparr>flagged := \<not> flagged sq\<rparr>) \<and> toggle_flag g1 c = Inr g"
    using 1 2 by blast
next
  assume "opened sq"
  then have "toggle_flag g c = Inr g"
    using assms by (simp add: toggle_flag_def)
  then show "toggle_flag_times n g c = Inr g"
    by (induction n) simp_all
qed

theorem toggle_flag_twice_witness:
  "getitem board12 (0, 1) = Some Square_init \<and> \<not> opened Square_init \<and>
   (\<exists>g1. toggle_flag board12 (0, 1) = Inr g1 \<and>
         getitem g1 (0, 1) = Some (Square_init\<lparr>flagged := True\<rparr>) \<and>
         toggle_flag g1 (0, 1) = Inr board12) \<and>
   getitem opened12 (0, 1) = Some (Square_init\<lparr>opened := True\<rparr>) \<and>
   toggle_flag_times 3 opened12 (0, 1) = Inr opened12"
proof -
  have a: "getitem board12 (0, 1) = Some Square_init"
    by (simp add: getitem_def board12_def)
  have b: "getitem opened12 (0, 1) = Some (Square_init\<lparr>opened := True\<rparr>)"
    by (simp add: getitem_def opened12_def)
  show ?thesis
    using a b toggle_flag_twice [OF a] toggle_flag_twice [OF b, of 3]
    by (simp add: Square_init_def)
qed

section \<open>Exploding\<close>

lemma exploded_iff_is: "exploded g \<longleftrightarrow> (\<exists>c. is_mine g c \<and> is_opened g c)"
proof
  assume "exploded g"
  then obtain c sq where "getitem g c = Some sq" "mine sq" "opened sq"
    unfolding exploded_iff by blast
  then have "is_mine g c \<and> is_opened g c"
    by (simp add: is_mine_def is_opened_def)
  then show "\<exists>c. is_mine g c \<and> is_opened g c" ..
next
  assume "\<exists>c. is_mine g c \<and> is_opened g c"
  then obtain c where c: "is_mine g c" "is_opened g c" by blast
  then obtain sq where "getitem g c = Some sq" "mine sq" "opened sq"
    by (cases "getitem g c") (auto simp: is_mine_def is_opened_def)
  then show "exploded g"
    unfolding exploded_iff by blast
qed

lemma opened_more_exploded: "opened_more g g' \<Longrightarrow> exploded g \<Longrightarrow> exploded g'"
  unfolding exploded_iff_is
  using opened_more_is_mine opened_more_is_opened by blast

lemma open_square_Suc_after:
  "getitem g c = Some sq \<Longrightarrow>
   opened_more (if \<not> flagged sq then update_square (\<lambda>s. s\<lparr>opened := True\<rparr>) c g else g)
     (state_after (open_square (Suc d) g c))"
  by (auto simp: Let_def opened_more_refl open_square_opened_more(2) split: sum.splits)

lemma toggle_flag_is_mine: "is_mine (state_after (toggle_flag g c)) c' = is_mine g c'"
  by (auto simp: toggle_flag_def is_mine_def getitem_update_square split: option.splits)

lemma toggle_flag_is_opened: "is_opened (state_after (toggle_flag g c)) c' = is_opened g c'"
  by (auto simp: toggle_flag_def is_opened_def getitem_update_square split: option.splits)

lemma toggle_flag_exploded: "exploded (state_after (toggle_flag g c)) = exploded g"
  by (simp add: exploded_iff_is toggle_flag_is_mine toggle_flag_is_opened)

text \<open>
  Claim C5. A call of \<open>open\<close> on a mine that is not flagged leaves the game exploded,
  provided the call itself is within the recursion bound; and a game that is exploded
  is still exploded after any call of \<open>open\<close> or \<open>toggle_flag\<close>. Both hold for the state
  the call leaves behind whether it returns or raises.
\<close>

theorem exploded_after_open_mine:
  "(is_mine g c \<and> \<not> is_flagged g c \<longrightarrow> exploded (state_after (open_square (Suc d) g c))) \<and>
   (exploded g \<longrightarrow>
      exploded (state_after (open_square d g c')) \<and> exploded (state_after (toggle_flag g c')))"
proof (intro conjI impI)
  assume "is_mine g c \<and> \<not> is_flagged g c"
  then obtain sq where sq: "getitem g c = Some sq" "mine sq" "\<not> flagged sq"
    by (auto simp: is_mine_def is_flagged_def split: option.splits)
  let ?g1 = "update_square (\<lambda>s. s\<lparr>opened := True\<rparr>) c g"
  have "is_mine ?g1 c \<and> is_opened ?g1 c"
    using sq by (simp add: is_mine_def is_opened_def getitem_update_square)
  then have "exploded ?g1"
    unfolding exploded_iff_is by blast
  moreover have "opened_more ?g1 (state_after (open_square (Suc d) g c))"
    using open_square_Suc_after [OF sq(1), of d] sq(3) by simp
  ultimately show "exploded (state_after (open_square (Suc d) g c))"
    by (rule opened_more_exploded [rotated])
next
  assume "exploded g"
  then show "exploded (state_after (open_square d g c'))"
    using open_square_opened_more(1) opened_more_exploded by blast
next
  assume "exploded g"
  then show "exploded (state_after (toggle_flag g c'))"
    by (simp add: toggle_flag_exploded)
qed

theorem exploded_after_open_mine_witness:
  "is_mine mine12 (0, 0) \<and> \<not> is_flagged mine12 (0, 0) \<and> \<not> exploded mine12 \<and>
   exploded (state_after (open_square 1 mine12 (0, 0))) \<and>
   exploded (state_after (open_square 2 (state_after (open_square 1 mine12 (0, 0))) (0, 1))) \<and>
   exploded (state_after (toggle_flag (state_after (open_square 1 mine12 (0, 0))) (0, 1)))"
proof -
  have a: "is_mine mine12 (0, 0) \<and> \<not> is_flagged mine12 (0, 0)" by code_simp
  have b: "\<not> exploded mine12" by code_simp
  have c: "exploded (state_after (open_square 1 mine12 (0, 0)))"
    using exploded_after_open_mine [of mine12 "(0, 0)" 0] a by simp
  show ?thesis
    using a b c
      exploded_after_open_mine [of "state_after (open_square 1 mine12 (0, 0))" _ 2 "(0, 1)"]
    by simp
qed

section \<open>Coordinates outside the grid\<close>

lemma set_grid: "set (grid w h) = {(x, y). 0 \<le> x \<and> x < w \<and> 0 \<le> y \<and> y < h}"
  by (auto simp: grid_def)

lemma grid_product: "grid w h = List.product [0..w - 1] [0..h - 1]"
proof -
  have "concat (map (\<lambda>y. [(x, y)]) ys) = map (Pair x) ys" for x :: int and ys :: "int list"
    by (induction ys) simp_all
  then show ?thesis by (simp add: grid_def List.product_concat_map)
qed

lemma distinct_grid: "distinct (grid w h)"
  by (simp add: grid_product distinct_product)

lemma length_grid: "length (grid w h) = nat w * nat h"
  by (simp add: grid_product)

lemma int_length_grid: "int (length (grid w h)) = max 0 w * max 0 h"
  by (simp add: length_grid max_def)

lemma in_grid_iff: "in_grid g c \<longleftrightarrow> c \<in> set (grid (width g) (height g))"
  by (cases c) (simp add: in_grid_def set_grid)

lemma wf_game_getitem_None: "wf_game g \<Longrightarrow> getitem g c = None \<longleftrightarrow> \<not> in_grid g c"
  by (simp add: getitem_None_iff wf_game_def in_grid_iff)

lemma coords_around_in_grid: "x \<in> set (coords_around g c) \<Longrightarrow> in_grid g x"
  by (cases c) (auto simp: coords_around_def in_grid_def)

lemma mines_around_loop_total:
  "\<forall>x \<in> set cs. getitem g x \<noteq> None \<Longrightarrow> mines_around_loop g cs = Inr (filter (is_mine g) cs)"
  by (induction cs) (auto simp: is_mine_def)

lemma number_of_mines_around_wf:
  assumes "wf_game g"
  shows "number_of_mines_around g c = Inr (int (length (filter (is_mine g) (coords_around g c))))"
proof -
  have "\<forall>x \<in> set (coords_around g c). getitem g x \<noteq> None"
    using assms coords_around_in_grid by (auto simp: wf_game_getitem_None)
  then show ?thesis
    by (simp add: number_of_mines_around_def mines_around_def mines_around_loop_total foldl_count)
qed

text \<open>
  Claim C6, amended. On a game whose keys are the grid, \<open>open\<close> and \<open>toggle_flag\<close> raise
  \<open>KeyError\<close> on a coordinate outside the grid and leave the game unchanged.
  \<open>number_of_mines_around\<close> does not raise there: it never looks up its own coordinate,
  and returns the number of mines among the neighbours that lie inside the grid.
\<close>

theorem out_of_grid_calls:
  assumes "wf_game g" and "\<not> in_grid g c"
  shows "open_square (Suc d) g c = Inl (KeyError, g) \<and>
         toggle_flag g c = Inl (KeyError, g) \<and>
         number_of_mines_around g c =
           Inr (int (length (filter (is_mine g) (coords_around g c))))"
proof -
  have "getitem g c = None"
    using assms by (simp add: wf_game_getitem_None)
  then show ?thesis
    using assms(1) by (simp add: toggle_flag_def number_of_mines_around_wf)
qed

text \<open>
  The claim as written fails for \<open>number_of_mines_around\<close>: at \<open>(-1, 0)\<close>, left of a
  1 x 2 board with a mine at \<open>(0, 0)\<close>, it returns 1.
\<close>

theorem number_of_mines_around_out_of_grid_counterexample:
  "wf_game mine12 \<and> \<not> in_grid mine12 (- 1, 0) \<and>
   number_of_mines_around mine12 (- 1, 0) = Inr 1"
  by code_simp

theorem out_of_grid_calls_witness:
  "wf_game mine12 \<and> \<not> in_grid mine12 (- 1, 1) \<and>
   open_square 1 mine12 (- 1, 1) = Inl (KeyError, mine12) \<and>
   toggle_flag mine12 (- 1, 1) = Inl (KeyError, mine12) \<and>
   number_of_mines_around mine12 (- 1, 1) = Inr 1"
proof -
  have a: "wf_game mine12" by code_simp
  have b: "\<not> in_grid mine12 (- 1, 1)" by code_simp
  have c: "int (length (filter (is_mine mine12) (coords_around mine12 (- 1, 1)))) = 1"
    by code_simp
  show ?thesis
    using a b c out_of_grid_calls [OF a b, of 0] by simp
qed

section \<open>Construction\<close>

lemma getitem_fresh:
  "getitem \<lparr>width = w, height = h, mines = m, squares = map (\<lambda>c. (c, v)) xs\<rparr> c =
     (if c \<in> set xs then Some v else None)"
  by (induction xs) (auto simp: getitem_def)

lemma mark_mines_Inr:
  "mark_mines cs g = Inr g' \<Longrightarrow>
     width g' = width g \<and> height g' = height g \<and> mines g' = mines g \<and>
     all_coords g' = all_coords g \<and> set cs \<subseteq> set (all_coords g) \<and>
     (\<forall>c. getitem g' c =
        map_option (\<lambda>sq. if c \<in> set cs then sq\<lparr>mine := True\<rparr> else sq) (getitem g c))"
proof (induction cs arbitrary: g)
  case Nil
  then show ?case by (simp add: option.map_ident)
next
  case (Cons x cs)
  from Cons.prems obtain sq where sq: "getitem g x = Some sq"
    and rest: "mark_mines cs (update_square (\<lambda>s. s\<lparr>mine := True\<rparr>) x g) = Inr g'"
    by (auto split: option.splits)
  from Cons.IH [OF rest] sq show ?case
    by (auto simp: getitem_update_square option.map_comp comp_def getitem_Some_all_coords
        intro!: option.map_cong)
qed

lemma mark_mines_total:
  "set cs \<subseteq> set (all_coords g) \<Longrightarrow> \<exists>g'. mark_mines cs g = Inr g'"
proof (induction cs arbitrary: g)
  case Nil
  show ?case by simp
next
  case (Cons x cs)
  then obtain sq where "getitem g x = Some sq"
    using getitem_all_coords [of x g] by auto
  with Cons show ?case by simp
qed

lemma sample_ok_picked:
  assumes "sample_ok population k idxs" and "distinct population"
  shows "set (map (\<lambda>i. population ! i) idxs) \<subseteq> set population"
    and "distinct (map (\<lambda>i. population ! i) idxs)"
    and "int (length (map (\<lambda>i. population ! i) idxs)) = k"
proof -
  from assms(1) have len: "int (length idxs) = k" and d: "distinct idxs"
    and r: "\<forall>i \<in> set idxs. i < length population"
    by (simp_all add: sample_ok_def list_all_iff)
  from r show "set (map (\<lambda>i. population ! i) idxs) \<subseteq> set population" by auto
  have "inj_on (\<lambda>i. population ! i) (set idxs)"
    using r assms(2) by (auto simp: inj_on_def nth_eq_iff_index_eq)
  with d show "distinct (map (\<lambda>i. population ! i) idxs)" by (simp add: distinct_map)
  from len show "int (length (map (\<lambda>i. population ! i) idxs)) = k" by simp
qed

lemma Game_init_Inr:
  assumes "Game_init w h m idxs = Inr g"
  shows "0 \<le> m" and "m \<le> int (length (grid w h))"
    and "width g = w" and "height g = h" and "mines g = m" and "all_coords g = grid w h"
    and "set (map (\<lambda>i. grid w h ! i) idxs) \<subseteq> set (grid w h)"
    and "getitem g c =
          (if c \<in> set (grid w h)
           then Some (Square_init\<lparr>mine := c \<in> set (map (\<lambda>i. grid w h ! i) idxs)\<rparr>)
           else None)"
proof -
  let ?g0 = "\<lparr>width = w, height = h, mines = m, squares = map (\<lambda>c. (c, Square_init)) (grid w h)\<rparr>"
  let ?picked = "map (\<lambda>i. grid w h ! i) idxs"
  from assms show m: "0 \<le> m" "m \<le> int (length (grid w h))"
    by (auto simp: Game_init_def random_sample_def Let_def split: if_splits)
  with assms have mm: "mark_mines ?picked ?g0 = Inr g"
    by (simp add: Game_init_def random_sample_def Let_def)
  have a0: "all_coords ?g0 = grid w h"
    by (simp add: all_coords_def comp_def)
  from mark_mines_Inr [OF mm] a0
  show "width g = w" "height g = h" "mines g = m" "all_coords g = grid w h"
    "set ?picked \<subseteq> set (grid w h)"
    by simp_all
  from mark_mines_Inr [OF mm] have "getitem g c =
      map_option (\<lambda>sq. if c \<in> set ?picked then sq\<lparr>mine := True\<rparr> else sq) (getitem ?g0 c)"
    by blast
  then show "getitem g c =
      (if c \<in> set (grid w h) then Some (Square_init\<lparr>mine := c \<in> set ?picked\<rparr>) else None)"
    by (simp add: getitem_fresh Square_init_def)
qed

lemma Game_init_total:
  assumes "0 \<le> m" and "m \<le> int (length (grid w h))" and "sample_ok (grid w h) m idxs"
  shows "\<exists>g. Game_init w h m idxs = Inr g"
proof -
  let ?g0 = "\<lparr>width = w, height = h, mines = m, squares = map (\<lambda>c. (c, Square_init)) (grid w h)\<rparr>"
  have "set (map (\<lambda>i. grid w h ! i) idxs) \<subseteq> set (all_coords ?g0)"
    using sample_ok_picked(1) [OF assms(3) distinct_grid] by (simp add: all_coords_def comp_def)
  from mark_mines_total [OF this] show ?thesis
    using assms(1,2) by (simp add: Game_init_def random_sample_def Let_def)
qed

lemma Game_init_mines:
  assumes "sample_ok (grid w h) m idxs" and "Game_init w h m idxs = Inr g"
  shows "{c. is_mine g c} = set (map (\<lambda>i. grid w h ! i) idxs)"
  using Game_init_Inr(7,8) [OF assms(2)]
  by (auto simp: is_mine_def Square_init_def split: option.splits if_splits)

text \<open>
  Claim C8. In a game that the constructor has built from a possible draw, every
  coordinate of the grid has a square that is neither opened nor flagged, and exactly
  \<open>mines\<close> coordinates hold a mine.
\<close>

theorem fresh_game:
  assumes "sample_ok (grid w h) m idxs" and "Game_init w h m idxs = Inr g"
  shows "(\<forall>x y. 0 \<le> x \<and> x < w \<and> 0 \<le> y \<and> y < h \<longrightarrow>
            (\<exists>sq. getitem g (x, y) = Some sq \<and> \<not> opened sq \<and> \<not> flagged sq)) \<and>
         finite {c. is_mine g c} \<and> int (card {c. is_mine g c}) = m"
proof -
  let ?picked = "map (\<lambda>i. grid w h ! i) idxs"
  have "\<exists>sq. getitem g (x, y) = Some sq \<and> \<not> opened sq \<and> \<not> flagged sq"
    if "0 \<le> x \<and> x < w \<and> 0 \<le> y \<and> y < h" for x y
    using that Game_init_Inr(8) [OF assms(2), of "(x, y)"] by (simp add: set_grid Square_init_def)
  moreover have "int (card (set ?picked)) = m"
    using sample_ok_picked(3) [OF assms(1) distinct_grid]
      distinct_card [OF sample_ok_picked(2) [OF assms(1) distinct_grid]]
    by presburger
  ultimately show ?thesis
    by (simp add: Game_init_mines [OF assms])
qed

theorem fresh_game_witness:
  "sample_ok (grid 1 2) 1 [0] \<and> Game_init 1 2 1 [0] = Inr mine12 \<and>
   getitem mine12 (0, 1) = Some Square_init \<and> int (card {c. is_mine mine12 c}) = 1"
proof -
  have a: "sample_ok (grid 1 2) 1 [0]" by code_simp
  have b: "Game_init 1 2 1 [0] = Inr mine12" by code_simp
  have c: "getitem mine12 (0, 1) = Some Square_init" by code_simp
  from a b c fresh_game [OF a b] show ?thesis by simp
qed

lemma Game_init_full:
  assumes "sample_ok (grid w h) m idxs" and "Game_init w h m idxs = Inr g" and "m = w * h"
  shows "{c. is_mine g c} = set (grid w h)"
proof -
  let ?picked = "map (\<lambda>i. grid w h ! i) idxs"
  have sub: "set ?picked \<subseteq> set (grid w h)"
    by (rule sample_ok_picked(1) [OF assms(1) distinct_grid])
  have "int (card (set ?picked)) = m"
    using sample_ok_picked(3) [OF assms(1) distinct_grid]
      distinct_card [OF sample_ok_picked(2) [OF assms(1) distinct_grid]]
    by presburger
  moreover have "int (card (set (grid w h))) = max 0 w * max 0 h"
    by (simp add: distinct_card distinct_grid int_length_grid)
  moreover have "m = max 0 w * max 0 h"
  proof (cases "0 < w \<and> 0 < h")
    case True
    with assms(3) show ?thesis by (simp add: max_def)
  next
    case False
    then have "max 0 w * max 0 h = 0" by (auto simp: max_def)
    with Game_init_Inr(1,2) [OF assms(2)] show ?thesis by (simp add: int_length_grid)
  qed
  ultimately have "card (set ?picked) = card (set (grid w h))" by simp
  with sub have "set ?picked = set (grid w h)"
    by (simp add: card_subset_eq)
  then show ?thesis by (simp add: Game_init_mines [OF assms(1,2)])
qed

text \<open>
  Claim C10. A game built with \<open>mines = width * height\<close> is already won and over,
  although none of its squares is opened.
\<close>

theorem all_mines_fresh_win:
  assumes "sample_ok (grid w h) m idxs" and "Game_init w h m idxs = Inr g" and "m = w * h"
  shows "win g \<and> over g \<and> (\<forall>c. \<not> is_opened g c)"
proof -
  have closed: "\<not> is_opened g c" for c
    using Game_init_Inr(8) [OF assms(2), of c] by (simp add: is_opened_def Square_init_def)
  then have "\<not> exploded g"
    by (simp add: exploded_iff_is)
  moreover have "mine sq" if "getitem g c = Some sq" for c sq
  proof -
    from that have "c \<in> set (grid w h)"
      using Game_init_Inr(8) [OF assms(2), of c] by (simp split: if_splits)
    then have "is_mine g c"
      using Game_init_full [OF assms] by blast
    with that show ?thesis by (simp add: is_mine_def)
  qed
  ultimately have "win g"
    unfolding win_mine_or_opened by blast
  with closed show ?thesis by (simp add: over_def)
qed

theorem all_mines_fresh_win_witness:
  "sample_ok (grid 1 2) 2 [1, 0] \<and> Game_init 1 2 2 [1, 0] = Inr all_mines12 \<and>
   win all_mines12 \<and> over all_mines12 \<and> \<not> is_opened all_mines12 (0, 0)"
proof -
  have a: "sample_ok (grid 1 2) 2 [1, 0]" by code_simp
  have b: "Game_init 1 2 2 [1, 0] = Inr all_mines12" by code_simp
  from a b all_mines_fresh_win [OF a b] show ?thesis by simp
qed

text \<open>
  Claim C7, amended. The constructor raises \<open>ValueError\<close> whenever \<open>mines\<close> is negative
  or larger than the number of coordinates, \<open>max(0, width) * max(0, height)\<close>: so
  whenever \<open>mines\<close> exceeds \<open>width * height\<close> for positive dimensions, and whenever
  \<open>mines\<close> is not 0 for a width or height that is not positive. In every other case it
  succeeds; and whenever it succeeds with a width or height that is not positive,
  \<open>mines\<close> is 0 and the game it builds has the given dimensions and an empty
  dictionary.
\<close>

theorem Game_init_fails_iff:
  "(m < 0 \<or> max 0 w * max 0 h < m \<longrightarrow> Game_init w h m idxs = Inl ValueError) \<and>
   (0 < w \<and> 0 < h \<and> w * h < m \<longrightarrow> Game_init w h m idxs = Inl ValueError) \<and>
   ((w \<le> 0 \<or> h \<le> 0) \<and> m \<noteq> 0 \<longrightarrow> Game_init w h m idxs = Inl ValueError) \<and>
   (0 \<le> m \<and> m \<le> max 0 w * max 0 h \<and> sample_ok (grid w h) m idxs \<longrightarrow>
      (\<exists>g. Game_init w h m idxs = Inr g)) \<and>
   ((w \<le> 0 \<or> h \<le> 0) \<and> Game_init w h m idxs = Inr g \<longrightarrow>
      m = 0 \<and> g = \<lparr>width = w, height = h, mines = 0, squares = []\<rparr>)"
proof (intro conjI impI)
  assume "m < 0 \<or> max 0 w * max 0 h < m"
  then show "Game_init w h m idxs = Inl ValueError"
    by (auto simp: Game_init_def random_sample_def Let_def int_length_grid)
next
  assume "0 < w \<and> 0 < h \<and> w * h < m"
  then have "int (length (grid w h)) < m"
    by (simp add: int_length_grid max_def)
  then show "Game_init w h m idxs = Inl ValueError"
    by (simp add: Game_init_def random_sample_def Let_def)
next
  assume a: "(w \<le> 0 \<or> h \<le> 0) \<and> m \<noteq> 0"
  then have "int (length (grid w h)) = 0"
    by (auto simp: int_length_grid max_def)
  with a have "m < 0 \<or> int (length (grid w h)) < m"
    by linarith
  then show "Game_init w h m idxs = Inl ValueError"
    by (simp add: Game_init_def random_sample_def Let_def)
next
  assume "0 \<le> m \<and> m \<le> max 0 w * max 0 h \<and> sample_ok (grid w h) m idxs"
  then show "\<exists>g. Game_init w h m idxs = Inr g"
    using Game_init_total [of m w h idxs] by (simp add: int_length_grid)
next
  assume a: "(w \<le> 0 \<or> h \<le> 0) \<and> Game_init w h m idxs = Inr g"
  then have init: "Game_init w h m idxs = Inr g" by simp
  from a have len: "length (grid w h) = 0"
    by (auto simp: length_grid)
  with Game_init_Inr(1,2) [OF init] show "m = 0" by simp
  from len Game_init_Inr(6) [OF init] have "squares g = []"
    by (simp add: all_coords_def)
  with Game_init_Inr(3,4,5) [OF init] \<open>m = 0\<close>
  show "g = \<lparr>width = w, height = h, mines = 0, squares = []\<rparr>"
    by (cases g) simp
qed

text \<open>
  The claim as written fails for dimensions that are not positive: \<open>Game(0, 5, 0)\<close>
  is built, with an empty dictionary.
\<close>

theorem empty_board_counterexample:
  "sample_ok (grid 0 5) 0 [] \<and>
   Game_init 0 5 0 [] = Inr \<lparr>width = 0, height = 5, mines = 0, squares = []\<rparr>"
  by code_simp

theorem Game_init_fails_iff_witness:
  "Game_init 2 2 5 [] = Inl ValueError \<and> Game_init 0 5 1 [0] = Inl ValueError \<and>
   sample_ok (grid 1 2) 1 [1] \<and> (\<exists>g. Game_init 1 2 1 [1] = Inr g) \<and>
   sample_ok (grid (- 1) 3) 0 [] \<and>
   Game_init (- 1) 3 0 [] = Inr \<lparr>width = - 1, height = 3, mines = 0, squares = []\<rparr>"
proof -
  have a: "sample_ok (grid 1 2) 1 [1]" by code_simp
  have b: "sample_ok (grid (- 1) 3) 0 []" by code_simp
  from b obtain g where g: "Game_init (- 1) 3 0 [] = Inr g"
    using Game_init_fails_iff [of 0 "- 1" 3 "[]"] by auto
  then have "g = \<lparr>width = - 1, height = 3, mines = 0, squares = []\<rparr>"
    using Game_init_fails_iff [of 0 "- 1" 3 "[]" g] by simp
  with g have c: "Game_init (- 1) 3 0 [] = Inr \<lparr>width = - 1, height = 3, mines = 0, squares = []\<rparr>"
    by simp
  show ?thesis
    using a b c Game_init_fails_iff [of 5 2 2 "[]"] Game_init_fails_iff [of 1 0 5 "[0]"]
      Game_init_fails_iff [of 1 1 2 "[1]"]
    by simp
qed

section \<open>The flag invariant\<close>

lemma opened_more_flag_inv: "opened_more g g' \<Longrightarrow> flag_inv g \<Longrightarrow> flag_inv g'"
  unfolding flag_inv_def
  using opened_more_is_flagged opened_more_is_opened opened_more_newly_unflagged by blast

lemma toggle_flag_flag_inv: "flag_inv g \<Longrightarrow> flag_inv (state_after (toggle_flag g c))"
  unfolding flag_inv_def
  by (auto simp: toggle_flag_def is_flagged_def is_opened_def getitem_update_square
      split: option.splits if_splits)

lemma Game_init_flag_inv: "Game_init w h m idxs = Inr g \<Longrightarrow> flag_inv g"
  using Game_init_Inr(8) [of w h m idxs g]
  by (simp add: flag_inv_def is_opened_def Square_init_def)

lemma reachable_flag_inv: "reachable g \<Longrightarrow> flag_inv g"
proof (induction rule: reachable.induct)
  case (fresh w h m idxs g)
  then show ?case by (simp add: Game_init_flag_inv)
next
  case (after_open g d c)
  then show ?case
    using open_square_opened_more(1) opened_more_flag_inv by blast
next
  case (after_toggle_flag g c)
  then show ?case by (simp add: toggle_flag_flag_inv)
qed

text \<open>
  Claim C3. No square is flagged and opened at once: this holds in a fresh game, a call
  of \<open>open\<close> or \<open>toggle_flag\<close> keeps it (whether the call returns or raises), and so it
  holds in every reachable game.
\<close>

theorem flagged_never_opened:
  "(Game_init w h m idxs = Inr g0 \<longrightarrow> flag_inv g0) \<and>
   (flag_inv g \<longrightarrow>
      flag_inv (state_after (open_square d g c)) \<and> flag_inv (state_after (toggle_flag g c))) \<and>
   (reachable g' \<longrightarrow> flag_inv g')"
  using Game_init_flag_inv open_square_opened_more(1) opened_more_flag_inv toggle_flag_flag_inv
    reachable_flag_inv by blast

theorem flagged_never_opened_witness:
  "reachable (state_after (open_square 3 half_flagged12 (0, 1))) \<and>
   flag_inv (state_after (open_square 3 half_flagged12 (0, 1))) \<and>
   is_flagged (state_after (open_square 3 half_flagged12 (0, 1))) (0, 0) \<and>
   \<not> is_opened (state_after (open_square 3 half_flagged12 (0, 1))) (0, 0) \<and>
   is_opened (state_after (open_square 3 half_flagged12 (0, 1))) (0, 1)"
proof -
  have "sample_ok (grid 1 2) 0 []" and "Game_init 1 2 0 [] = Inr board12"
    by code_simp+
  then have "reachable board12" by (rule reachable.fresh)
  then have "reachable (state_after (toggle_flag board12 (0, 0)))"
    by (rule reachable.after_toggle_flag)
  moreover have "state_after (toggle_flag board12 (0, 0)) = half_flagged12"
    by code_simp
  ultimately have "reachable half_flagged12" by simp
  then have r: "reachable (state_after (open_square 3 half_flagged12 (0, 1)))"
    by (rule reachable.after_open)
  have "is_flagged (state_after (open_square 3 half_flagged12 (0, 1))) (0, 0)"
    and "\<not> is_opened (state_after (open_square 3 half_flagged12 (0, 1))) (0, 0)"
    and "is_opened (state_after (open_square 3 half_flagged12 (0, 1))) (0, 1)"
    by code_simp+
  with r flagged_never_opened [of _ _ _ _ _ _ _ _ "state_after (open_square 3 half_flagged12 (0, 1))"]
  show ?thesis by simp
qed

lemma toggle_flag_wf_game: "wf_game g \<Longrightarrow> wf_game (state_after (toggle_flag g c))"
  by (auto simp: toggle_flag_def wf_game_def split: option.splits)

lemma opened_more_wf_game: "opened_more g g' \<Longrightarrow> wf_game g \<Longrightarrow> wf_game g'"
  by (simp add: opened_more_def wf_game_def)

lemma wf_game_distinct: "wf_game g \<Longrightarrow> distinct (all_coords g)"
  by (simp add: wf_game_def distinct_grid)

lemma reachable_wf_game: "reachable g \<Longrightarrow> wf_game g"
proof (induction rule: reachable.induct)
  case (fresh w h m idxs g)
  then show ?case by (simp add: wf_game_def Game_init_Inr)
next
  case (after_open g d c)
  then show ?case
    using open_square_opened_more(1) opened_more_wf_game by blast
next
  case (after_toggle_flag g c)
  then show ?case by (simp add: toggle_flag_wf_game)
qed

section \<open>The scenarios of the specification\<close>

text \<open>
  On the 1 x 2 board without mines, \<open>open((0, 0))\<close> opens both squares and the game is
  won. On the 3 x 3 board with a mine in the middle, \<open>open((0, 0))\<close> opens that square
  only and the game is not over; \<open>open((1, 1))\<close> opens the mine, and the game is exploded,
  over and not won.
\<close>

lemma scenario_1x2:
  "Game_init 1 2 0 [] = Inr board12 \<and> open_square 2 board12 (0, 0) = Inr opened12 \<and> win opened12"
  by code_simp

lemma scenario_3x3_corner:
  "Game_init 3 3 1 [4] = Inr mine33 \<and>
   number_of_mines_around mine33 (0, 0) = Inr 1 \<and>
   open_square 9 mine33 (0, 0) = Inr (update_square (\<lambda>s. s\<lparr>opened := True\<rparr>) (0, 0) mine33) \<and>
   \<not> over (update_square (\<lambda>s. s\<lparr>opened := True\<rparr>) (0, 0) mine33)"
  by code_simp

lemma scenario_3x3_mine:
  "exploded (state_after (open_square 9 mine33 (1, 1))) \<and>
   over (state_after (open_square 9 mine33 (1, 1))) \<and>
   \<not> win (state_after (open_square 9 mine33 (1, 1)))"
  by code_simp

section \<open>The depth of the recursion\<close>

text \<open>
  Without flags, every call of \<open>open\<close> that \<open>auto_open\<close> makes opens a closed square, so
  the calls nest no deeper than there are squares: a bound of \<open>width * height\<close> is enough
  for \<open>open\<close> to return.
\<close>

lemma length_filter_mono:
  "(\<And>x. x \<in> set xs \<Longrightarrow> P x \<Longrightarrow> Q x) \<Longrightarrow> length (filter P xs) \<le> length (filter Q xs)"
  by (induction xs) auto

lemma length_filter_strict:
  assumes "\<And>x. x \<in> set xs \<Longrightarrow> P x \<Longrightarrow> Q x" and "y \<in> set xs" and "Q y" and "\<not> P y"
  shows "length (filter P xs) < length (filter Q xs)"
  using assms
proof (induction xs)
  case Nil
  then show ?case by simp
next
  case (Cons x xs)
  show ?case
  proof (cases "y = x")
    case True
    have "length (filter P xs) \<le> length (filter Q xs)"
      using Cons.prems(1) by (intro length_filter_mono) auto
    with True Cons.prems(3,4) show ?thesis by simp
  next
    case False
    with Cons.prems have "y \<in> set xs" by simp
    from Cons.IH [OF _ this Cons.prems(3,4)] Cons.prems(1)
    have "length (filter P xs) < length (filter Q xs)" by simp
    with Cons.prems(1) [of x] show ?thesis by auto
  qed
qed

lemma opened_more_closed_count: "opened_more g g' \<Longrightarrow> closed_count g' \<le> closed_count g"
  unfolding closed_count_def
  using opened_more_is_opened [of g g']
  by (auto simp: opened_more_def intro!: length_filter_mono)

lemma closed_count_open:
  assumes "getitem g c = Some sq" and "\<not> opened sq"
  shows "closed_count (update_square (\<lambda>s. s\<lparr>opened := True\<rparr>) c g) < closed_count g"
  unfolding closed_count_def all_coords_update_square
proof (rule length_filter_strict [where y = c])
  show "c \<in> set (all_coords g)"
    using assms(1) by (rule getitem_Some_all_coords)
  show "\<not> is_opened g c"
    using assms by (simp add: is_opened_def)
  show "\<not> \<not> is_opened (update_square (\<lambda>s. s\<lparr>opened := True\<rparr>) c g) c"
    using assms by (simp add: is_opened_def getitem_update_square)
  show "\<not> is_opened g x"
    if "\<not> is_opened (update_square (\<lambda>s. s\<lparr>opened := True\<rparr>) c g) x" for x
    using that by (cases "getitem g x") (auto simp: is_opened_def getitem_update_square split: if_splits)
qed

lemma closed_count_opened:
  assumes "getitem g c = Some sq" and "opened sq"
  shows "closed_count g < length (all_coords g)"
  unfolding closed_count_def
  using assms getitem_Some_all_coords [OF assms(1)]
  by (intro length_filter_less [of c]) (auto simp: is_opened_def)

lemma closed_count_le: "closed_count g \<le> length (all_coords g)"
  by (simp add: closed_count_def)

lemma opened_more_no_flags: "opened_more g g' \<Longrightarrow> no_flags g \<Longrightarrow> no_flags g'"
  by (simp add: no_flags_def opened_more_is_flagged)

lemma open_square_returns_aux:
  "wf_game g \<Longrightarrow> no_flags g \<Longrightarrow> getitem g c \<noteq> None \<Longrightarrow>
     (if is_opened g c then closed_count g < d else closed_count g \<le> d) \<Longrightarrow>
     \<exists>g'. open_square d g c = Inr g'"
  "wf_game g \<Longrightarrow> no_flags g \<Longrightarrow> \<forall>x \<in> set cs. getitem g x \<noteq> None \<Longrightarrow> closed_count g \<le> d \<Longrightarrow>
     \<exists>g'. auto_open_loop d g cs = Inr g'"
proof (induct d g c and d g cs rule: open_square_auto_open_loop.induct)
  case (1 g c)
  then obtain sq where sq: "getitem g c = Some sq" by auto
  show ?case
  proof (cases "opened sq")
    case True
    with 1 sq show ?thesis by (simp add: is_opened_def)
  next
    case False
    from closed_count_open [OF sq False] 1(4) sq False show ?thesis
      by (simp add: is_opened_def)
  qed
next
  case (2 d g c)
  then obtain sq where sq: "getitem g c = Some sq" by auto
  have "\<not> is_flagged g c"
    using "2.prems"(2) unfolding no_flags_def by blast
  then have nf: "\<not> flagged sq"
    using sq by (simp add: is_flagged_def)
  define g1 where "g1 = (if \<not> flagged sq then update_square (\<lambda>s. s\<lparr>opened := True\<rparr>) c g else g)"
  have g1: "opened_more g g1"
    using sq by (simp add: g1_def opened_more_refl opened_more_update)
  have wf1: "wf_game g1" and nf1: "no_flags g1"
    using g1 "2.prems"(1,2) opened_more_wf_game opened_more_no_flags by blast+
  have cc: "closed_count g1 \<le> d"
  proof (cases "opened sq")
    case True
    with "2.prems"(4) sq opened_more_closed_count [OF g1] show ?thesis
      by (simp add: is_opened_def)
  next
    case False
    from closed_count_open [OF sq False] "2.prems"(4) sq False nf show ?thesis
      by (simp add: is_opened_def g1_def)
  qed
  obtain n where n: "number_of_mines_around g1 c = Inr n"
    using number_of_mines_around_wf [OF wf1] by blast
  show ?case
  proof (cases "n = 0")
    case True
    have "\<forall>x \<in> set (coords_around g1 c). getitem g1 x \<noteq> None"
      using n number_of_mines_around_Inr by blast
    from "2.hyps" [OF sq g1_def n True wf1 nf1 this cc] show ?thesis
      using sq n True by (simp add: g1_def Let_def)
  next
    case False
    then show ?thesis using sq n by (simp add: g1_def Let_def)
  qed
next
  case (3 d g)
  show ?case by simp
next
  case (4 d g c cs)
  then obtain sq where sq: "getitem g c = Some sq" by auto
  have rest: "\<forall>x \<in> set cs. getitem g x \<noteq> None" using "4.prems"(3) by simp
  show ?case
  proof (cases "opened sq")
    case True
    with "4.hyps"(3) [OF sq _ "4.prems"(1,2) rest "4.prems"(4)] sq show ?thesis by simp
  next
    case False
    have "if is_opened g c then closed_count g < d else closed_count g \<le> d"
      using sq False "4.prems"(4) by (simp add: is_opened_def)
    from "4.hyps"(1) [OF sq False "4.prems"(1,2) _ this] sq
    obtain g' where g': "open_square d g c = Inr g'" by auto
    have gg': "opened_more g g'"
      using open_square_opened_more(1) [of g d c] g' by simp
    have "\<forall>x \<in> set cs. getitem g' x \<noteq> None"
      using rest opened_more_None [OF gg'] by simp
    moreover have "closed_count g' \<le> d"
      using opened_more_closed_count [OF gg'] "4.prems"(4) by simp
    ultimately obtain g'' where "auto_open_loop d g' cs = Inr g''"
      using "4.hyps"(2) [OF sq False g'] gg' "4.prems"(1,2)
        opened_more_wf_game opened_more_no_flags by blast
    with sq False g' show ?thesis by simp
  qed
qed

lemma open_square_returns:
  assumes "wf_game g" and "no_flags g" and "in_grid g c" and "nat (width g * height g) \<le> d"
  shows "\<exists>g'. open_square d g c = Inr g'"
proof -
  from assms(1,3) obtain sq where sq: "getitem g c = Some sq"
    using wf_game_getitem_None by fastforce
  have len: "length (all_coords g) = nat (width g * height g)"
    using assms(1,3) by (cases c) (auto simp: wf_game_def length_grid in_grid_def nat_mult_distrib)
  have "if is_opened g c then closed_count g < d else closed_count g \<le> d"
    using closed_count_opened [OF sq] closed_count_le [of g] len assms(4) sq
    by (auto simp: is_opened_def)
  with open_square_returns_aux(1) [OF assms(1,2)] sq show ?thesis by simp
qed

section \<open>The recursion of \<open>open\<close> between two flagged squares\<close>

lemma flagged12_never_returns:
  "open_square d flagged12 (0, 0) = Inl (RecursionError, flagged12) \<and>
   open_square d flagged12 (0, 1) = Inl (RecursionError, flagged12)"
proof (induction d)
  case 0
  show ?case by simp
next
  case (Suc d)
  have a: "getitem flagged12 (0, 0) = Some (Square_init\<lparr>flagged := True\<rparr>)"
    and b: "getitem flagged12 (0, 1) = Some (Square_init\<lparr>flagged := True\<rparr>)"
    by (simp_all add: getitem_def flagged12_def)
  have o: "\<not> opened (Square_init\<lparr>flagged := True\<rparr>)"
    by (simp add: Square_init_def)
  have ca: "coords_around flagged12 (0, 0) = [(0, 1)]"
    and cb: "coords_around flagged12 (0, 1) = [(0, 0)]"
    by (simp_all add: coords_around_def flagged12_def)
  have na: "number_of_mines_around flagged12 (0, 0) = Inr 0"
    and nb: "number_of_mines_around flagged12 (0, 1) = Inr 0"
    by code_simp+
  show ?case using Suc a b o by (simp add: na nb ca cb)
qed

text \<open>
  Claim C1 fails on the code. On the 1 x 2 board without mines, after both squares have
  been flagged, \<open>open((0, 0))\<close> does not open the flagged square, finds no mine around
  it and calls \<open>open((0, 1))\<close>, which in turn calls \<open>open((0, 0))\<close>: whatever the bound
  on the depth, the call ends in \<open>RecursionError\<close>.
\<close>

theorem open_flagged_pair_never_returns:
  "sample_ok (grid 1 2) 0 [] \<and> Game_init 1 2 0 [] = Inr board12 \<and>
   toggle_flag board12 (0, 0) = Inr half_flagged12 \<and>
   toggle_flag half_flagged12 (0, 1) = Inr flagged12 \<and>
   (\<forall>d. open_square d flagged12 (0, 0) = Inl (RecursionError, flagged12))"
proof -
  have "sample_ok (grid 1 2) 0 []" by code_simp
  moreover have "Game_init 1 2 0 [] = Inr board12" by code_simp
  moreover have "toggle_flag board12 (0, 0) = Inr half_flagged12" by code_simp
  moreover have "toggle_flag half_flagged12 (0, 1) = Inr flagged12" by code_simp
  ultimately show ?thesis using flagged12_never_returns by simp
qed

theorem open_flagged_pair_never_returns_witness:
  "open_square 1000 flagged12 (0, 0) = Inl (RecursionError, flagged12)"
  using open_flagged_pair_never_returns by blast

end
